theory Spec2Isabelle
  imports Main "HOL-Library.Word" "HOL-Library.Multiset"
begin

section \<open>Data model of package codec (src/codec/codec.go)\<close>

text \<open>
  Go's \<open>uint\<close> is modelled as a 64-bit word (the width on amd64 and arm64); comparison is
  the unsigned order of words and \<open>math.MaxUint\<close> is the all-ones word. A Go \<open>string\<close>
  and a \<open>[]byte\<close> are both sequences of bytes, so both are \<open>string\<close> (a list of 8-bit
  \<open>char\<close>) and the conversions \<open>[]byte(piece)\<close> and \<open>string(bytes)\<close> are the identity.
\<close>

type_synonym uint = "64 word"

definition MaxUint :: uint where
  "MaxUint = - 1"

text \<open>
  \<open>type vocab map[string]uint\<close>. The map is kept as an association list read with
  \<open>map_of\<close>; the order of the list stands for the order in which one \<open>range\<close> loop over
  the map visits its entries, which Go leaves unspecified, so every statement below
  holds for every order. A Go map holds each key once: \<open>distinct (map fst v)\<close>.
\<close>

type_synonym vocab = "(string \<times> uint) list"

type_synonym reverse = "uint \<rightharpoonup> string"

text \<open>
  The splitter \<open>*regexp2.Regexp\<close> is an external library. What \<open>Encode\<close> and \<open>Count\<close>
  observe of it is the sequence of results of \<open>FindStringMatch\<close> followed by
  \<open>FindNextMatch\<close> calls: matches (each with its \<open>String()\<close>), closed either by \<open>nil\<close>
  (no further match) or by an error. The engine advances through a finite input, so
  the sequence is finite.
\<close>

datatype matches =
    NoMatch
  | Match string matches
  | MatchFault string

datatype error =
    ErrorMatching string
  | InvalidToken uint
  | ErrModelNotSupported

record Codec =
  vocabulary :: vocab
  reverseVocabulary :: "reverse option"
  specialTokens :: "(string \<times> uint) list"
  splitRegexp :: "string \<Rightarrow> matches"
  name :: string

record part =
  offset :: nat
  rank :: uint

section \<open>The merge engine: bpe\<close>

text \<open>
  The slice expression \<open>piece[start:end]\<close>. Every use below has
  \<open>start \<le> end \<le> len(piece)\<close> (the offsets of the boundary array rise from \<open>0\<close> to
  \<open>len(piece)\<close>, lemma \<open>parts_inv_merge_loop\<close>), where Go does not panic.
\<close>

definition subslice :: "'a list \<Rightarrow> nat \<Rightarrow> nat \<Rightarrow> 'a list" where
  "subslice xs start end = take (end - start) (drop start xs)"

text \<open>The closure \<open>getRank\<close> (lines 122-131); it reads the current \<open>parts\<close>.\<close>

definition getRank :: "Codec \<Rightarrow> string \<Rightarrow> part list \<Rightarrow> nat \<Rightarrow> nat \<Rightarrow> uint" where
  "getRank c piece parts index skip =
     (if index + skip + 2 < length parts then
        (let start = offset (parts ! index);
             end = offset (parts ! (index + skip + 2))
         in case map_of (vocabulary c) (subslice piece start end) of
              Some r \<Rightarrow> r
            | None \<Rightarrow> MaxUint)
      else MaxUint)"

text \<open>Lines 118-120: \<open>parts[i] = part{i, math.MaxUint}\<close> for every index.\<close>

definition fresh_parts :: "string \<Rightarrow> part list" where
  "fresh_parts piece = map (\<lambda>i. \<lparr>offset = i, rank = MaxUint\<rparr>) [0..<length piece + 1]"

text \<open>Lines 133-135: \<open>parts[i].rank = getRank(i, 0)\<close> for \<open>i < len(parts)-2\<close>, in order.\<close>

definition set_rank :: "part list \<Rightarrow> nat \<Rightarrow> uint \<Rightarrow> part list" where
  "set_rank parts i r = parts[i := (parts ! i)\<lparr>rank := r\<rparr>]"

definition init_parts :: "Codec \<Rightarrow> string \<Rightarrow> part list" where
  "init_parts c piece =
     fold (\<lambda>i parts. set_rank parts i (getRank c piece parts i 0))
          [0..<length piece + 1 - 2] (fresh_parts piece)"

text \<open>
  Lines 142-149: the scan of \<open>parts[:len(parts)-1]\<close> for the least rank, from
  \<open>minRank = MaxUint\<close>, \<open>minIndex = 0\<close>; the strict comparison keeps the first index.
\<close>

fun scan :: "part list \<Rightarrow> nat \<Rightarrow> uint \<Rightarrow> nat \<Rightarrow> uint \<times> nat" where
  "scan [] i minRank minIndex = (minRank, minIndex)"
| "scan (p # ps) i minRank minIndex =
     (if rank p < minRank then scan ps (Suc i) (rank p) i
      else scan ps (Suc i) minRank minIndex)"

definition find_min :: "part list \<Rightarrow> uint \<times> nat" where
  "find_min parts = scan (butlast parts) 0 MaxUint 0"

text \<open>
  Lines 155-161: the two rank updates (the second reads the array after the first)
  and \<open>append(parts[:minIndex+1], parts[minIndex+2:]...)\<close>.
\<close>

definition merge_at :: "Codec \<Rightarrow> string \<Rightarrow> part list \<Rightarrow> nat \<Rightarrow> part list" where
  "merge_at c piece parts minIndex =
     (let parts1 = set_rank parts minIndex (getRank c piece parts minIndex 1);
          parts2 = (if minIndex > 0
                    then set_rank parts1 (minIndex - 1) (getRank c piece parts1 (minIndex - 1) 1)
                    else parts1)
      in take (minIndex + 1) parts2 @ drop (minIndex + 2) parts2)"

subsection \<open>Facts about the scan, for the termination of the loop\<close>

text \<open>
  The scan returns either its start values (no rank below \<open>minRank\<close> was seen) or a
  strictly smaller rank together with the first index that holds it.
\<close>

lemma scan_spec:
  "scan ps i r m = (r', m') \<Longrightarrow>
     (r' = r \<and> m' = m \<and> (\<forall>p \<in> set ps. \<not> rank p < r)) \<or>
     (r' < r \<and> i \<le> m' \<and> m' < i + length ps \<and> rank (ps ! (m' - i)) = r' \<and>
      (\<forall>j < length ps. r' \<le> rank (ps ! j)) \<and> (\<forall>j < m' - i. r' < rank (ps ! j)))"
proof (induction ps arbitrary: i r m)
  case Nil
  then show ?case by simp
next
  case (Cons p ps)
  show ?case
  proof (cases "rank p < r")
    case True
    with Cons.prems have s: "scan ps (Suc i) (rank p) i = (r', m')" by simp
    from Cons.IH [OF s] show ?thesis
    proof
      assume a: "r' = rank p \<and> m' = i \<and> (\<forall>q \<in> set ps. \<not> rank q < rank p)"
      then have "\<forall>j < length (p # ps). r' \<le> rank ((p # ps) ! j)"
        by (auto simp: nth_Cons not_less all_set_conv_all_nth split: nat.splits)
      with a True show ?thesis by simp
    next
      assume a: "r' < rank p \<and> Suc i \<le> m' \<and> m' < Suc i + length ps \<and>
        rank (ps ! (m' - Suc i)) = r' \<and>
        (\<forall>j < length ps. r' \<le> rank (ps ! j)) \<and> (\<forall>j < m' - Suc i. r' < rank (ps ! j))"
      then have 1: "\<forall>j < length (p # ps). r' \<le> rank ((p # ps) ! j)"
        by (auto simp: nth_Cons split: nat.splits)
      from a have 2: "\<forall>j < m' - i. r' < rank ((p # ps) ! j)"
        by (auto simp: nth_Cons split: nat.splits)
      from a have "m' - i = Suc (m' - Suc i)" by arith
      with a have 3: "rank ((p # ps) ! (m' - i)) = r'" by simp
      from a True 1 2 3 show ?thesis by auto
    qed
  next
    case False
    with Cons.prems have s: "scan ps (Suc i) r m = (r', m')" by simp
    from Cons.IH [OF s] show ?thesis
    proof
      assume "r' = r \<and> m' = m \<and> (\<forall>q \<in> set ps. \<not> rank q < r)"
      with False show ?thesis by simp
    next
      assume a: "r' < r \<and> Suc i \<le> m' \<and> m' < Suc i + length ps \<and>
        rank (ps ! (m' - Suc i)) = r' \<and>
        (\<forall>j < length ps. r' \<le> rank (ps ! j)) \<and> (\<forall>j < m' - Suc i. r' < rank (ps ! j))"
      with False have rp: "r' < rank p" by auto
      with a have 1: "\<forall>j < length (p # ps). r' \<le> rank ((p # ps) ! j)"
        by (auto simp: nth_Cons split: nat.splits)
      from a rp have 2: "\<forall>j < m' - i. r' < rank ((p # ps) ! j)"
        by (auto simp: nth_Cons split: nat.splits)
      from a have "m' - i = Suc (m' - Suc i)" by arith
      with a have 3: "rank ((p # ps) ! (m' - i)) = r'" by simp
      from a 1 2 3 show ?thesis by auto
    qed
  qed
qed


lemma find_min_finite:
  assumes "find_min parts = (r, i)" and "r \<noteq> MaxUint"
  shows "i < length parts - 1" and "rank (parts ! i) = r"
    and "\<forall>j < length parts - 1. r \<le> rank (parts ! j)"
    and "\<forall>j < i. r < rank (parts ! j)"
proof -
  from assms(1) have s: "scan (butlast parts) 0 MaxUint 0 = (r, i)"
    by (simp add: find_min_def)
  from scan_spec [OF s] assms(2)
  have a: "i < length (butlast parts)" "rank (butlast parts ! i) = r"
    "\<forall>j < length (butlast parts). r \<le> rank (butlast parts ! j)"
    "\<forall>j < i. r < rank (butlast parts ! j)"
    by auto
  from a(1) show "i < length parts - 1" by simp
  from a(1,2) show "rank (parts ! i) = r" by (simp add: nth_butlast)
  from a(3) show "\<forall>j < length parts - 1. r \<le> rank (parts ! j)"
    by (simp add: nth_butlast)
  from a(1,4) show "\<forall>j < i. r < rank (parts ! j)"
    by (simp add: nth_butlast)
qed


lemma length_set_rank [simp]: "length (set_rank parts i r) = length parts"
  by (simp add: set_rank_def)

lemma length_merge_at:
  "i + 2 \<le> length parts \<Longrightarrow> length (merge_at c piece parts i) = length parts - 1"
  by (auto simp: merge_at_def Let_def)

lemma merge_at_shorter:
  assumes "find_min parts = (r, i)" and "r \<noteq> MaxUint"
  shows "length (merge_at c piece parts i) < length parts"
proof -
  from find_min_finite(1) [OF assms] have "i + 2 \<le> length parts" by simp
  from length_merge_at [OF this] this show ?thesis by simp
qed

subsection \<open>The loop and the result\<close>

text \<open>
  Lines 137-162: the merge loop. Every pass that does not \<open>break\<close> shortens \<open>parts\<close>
  by one entry, which is the termination argument.
\<close>

function merge_loop :: "Codec \<Rightarrow> string \<Rightarrow> part list \<Rightarrow> part list" where
  "merge_loop c piece parts =
     (if length parts = 1 then parts
      else case find_min parts of (minRank, minIndex) \<Rightarrow>
        if minRank = MaxUint then parts
        else merge_loop c piece (merge_at c piece parts minIndex))"
  by pat_completeness auto
termination
proof (relation "measure (\<lambda>(c, piece, parts). length parts)", goal_cases)
  case 1
  show ?case by simp
next
  case (2 c piece parts x1 x2)
  then have "find_min parts = (x1, x2)" by simp
  from merge_at_shorter [OF this] 2 show ?case by simp
qed

declare merge_loop.simps [simp del]

text \<open>
  The same loop with an explicit bound on the number of passes: \<open>None\<close> when the bound
  is used up before the loop breaks.
\<close>

fun merge_loop_fuel :: "nat \<Rightarrow> Codec \<Rightarrow> string \<Rightarrow> part list \<Rightarrow> part list option" where
  "merge_loop_fuel fuel c piece parts =
     (if length parts = 1 then Some parts
      else case find_min parts of (minRank, minIndex) \<Rightarrow>
        if minRank = MaxUint then Some parts
        else (case fuel of
                0 \<Rightarrow> None
              | Suc fuel' \<Rightarrow> merge_loop_fuel fuel' c piece (merge_at c piece parts minIndex)))"

declare merge_loop_fuel.simps [simp del]

text \<open>
  Lines 164-170: one token per remaining span; \<open>c.vocabulary[token]\<close> without the
  \<open>ok\<close> result is the zero value \<open>0\<close> when the key is absent.
\<close>

definition lookup0 :: "vocab \<Rightarrow> string \<Rightarrow> uint" where
  "lookup0 v token = (case map_of v token of Some r \<Rightarrow> r | None \<Rightarrow> 0)"

definition emit :: "Codec \<Rightarrow> string \<Rightarrow> part list \<Rightarrow> uint list \<times> string list" where
  "emit c piece parts =
     (let tokens = map (\<lambda>i. subslice piece (offset (parts ! i)) (offset (parts ! (i + 1))))
                       [0..<length parts - 1]
      in (map (lookup0 (vocabulary c)) tokens, tokens))"

definition bpe :: "Codec \<Rightarrow> string \<Rightarrow> uint list \<times> string list" where
  "bpe c piece = emit c piece (merge_loop c piece (init_parts c piece))"

section \<open>The facade: Encode, Count, Decode\<close>

text \<open>
  Lines 33-48 of \<open>Encode\<close>: the loop over the matches, with the two result slices as
  accumulators. An error of the splitter returns \<open>nil, nil, err\<close>: no partial result.
\<close>

fun encode_loop ::
  "Codec \<Rightarrow> matches \<Rightarrow> uint list \<Rightarrow> string list \<Rightarrow> error + (uint list \<times> string list)" where
  "encode_loop c NoMatch ids tokens = Inr (ids, tokens)"
| "encode_loop c (MatchFault err) ids tokens = Inl (ErrorMatching err)"
| "encode_loop c (Match piece m) ids tokens =
     (case map_of (vocabulary c) piece of
        Some id' \<Rightarrow> encode_loop c m (ids @ [id']) (tokens @ [piece])
      | None \<Rightarrow>
          (case bpe c piece of (newIds, newTokens) \<Rightarrow>
             encode_loop c m (ids @ newIds) (tokens @ newTokens)))"

definition Encode :: "Codec \<Rightarrow> string \<Rightarrow> error + (uint list \<times> string list)" where
  "Encode c input = encode_loop c (splitRegexp c input) [] []"

text \<open>
  Lines 59-72 of \<open>Count\<close>. The counter \<open>count\<close> is a Go \<open>int\<close>; it counts tokens held in memory
  and cannot reach \<open>2^63\<close>, so it is an unbounded \<open>int\<close> here.
\<close>

fun count_loop :: "Codec \<Rightarrow> matches \<Rightarrow> int \<Rightarrow> error + int" where
  "count_loop c NoMatch cnt = Inr cnt"
| "count_loop c (MatchFault err) cnt = Inl (ErrorMatching err)"
| "count_loop c (Match piece m) cnt =
     (case map_of (vocabulary c) piece of
        Some id' \<Rightarrow> count_loop c m (cnt + 1)
      | None \<Rightarrow>
          (case bpe c piece of (newIds, newTokens) \<Rightarrow>
             count_loop c m (cnt + int (length newTokens))))"

definition Count :: "Codec \<Rightarrow> string \<Rightarrow> error + int" where
  "Count c input = count_loop c (splitRegexp c input) 0"

text \<open>
  Lines 77-82 of \<open>Decode\<close>: the reverse table is built on first use, by one \<open>range\<close>
  loop over the vocabulary that stores \<open>reverseVocabulary[v] = k\<close>, and kept in the
  codec. \<open>Decode\<close> therefore returns the codec as well.
\<close>

definition build_reverse :: "vocab \<Rightarrow> reverse" where
  "build_reverse v = fold (\<lambda>(k, r) m. m(r \<mapsto> k)) v Map.empty"

definition ensure_reverse :: "Codec \<Rightarrow> Codec" where
  "ensure_reverse c =
     (case reverseVocabulary c of
        None \<Rightarrow> c\<lparr>reverseVocabulary := Some (build_reverse (vocabulary c))\<rparr>
      | Some m \<Rightarrow> c)"

text \<open>Lines 84-92: the loop over the ids; the first id without a piece ends it.\<close>

fun decode_loop :: "reverse \<Rightarrow> uint list \<Rightarrow> string \<Rightarrow> error + string" where
  "decode_loop m [] out = Inr out"
| "decode_loop m (t # ts) out =
     (case m t of
        None \<Rightarrow> Inl (InvalidToken t)
      | Some piece \<Rightarrow> decode_loop m ts (out @ piece))"

definition Decode :: "Codec \<Rightarrow> uint list \<Rightarrow> (error + string) \<times> Codec" where
  "Decode c tokens =
     (let c' = ensure_reverse c
      in (decode_loop (the (reverseVocabulary c')) tokens [], c'))"

section \<open>Model-name resolution (package tokenizer, src/unnamed/part_000)\<close>

text \<open>\<open>type Encoding string\<close> and the two package-level tables (lines 205-262).\<close>

type_synonym Encoding = string

definition modelPrefixToEncoding :: "(string \<times> Encoding) list" where
  "modelPrefixToEncoding =
     [(''gpt-4-'', ''cl100k_base''),
      (''gpt-3.5-turbo-'', ''cl100k_base''),
      (''gpt-35-turbo-'', ''cl100k_base''),
      (''ft:gpt-4'', ''cl100k_base''),
      (''ft:gpt-3.5-turbo'', ''cl100k_base''),
      (''ft:davinci-002'', ''cl100k_base''),
      (''ft:babbage-002'', ''cl100k_base'')]"

definition modelToEncoding :: "(string \<times> Encoding) list" where
  "modelToEncoding =
     [(''gpt-4'', ''cl100k_base''),
      (''gpt-3.5-turbo'', ''cl100k_base''),
      (''gpt-35-turbo'', ''cl100k_base''),
      (''davinci-002'', ''cl100k_base''),
      (''babbage-002'', ''cl100k_base''),
      (''text-embedding-ada-002'', ''cl100k_base''),
      (''text-davinci-003'', ''p50k_base''),
      (''text-davinci-002'', ''p50k_base''),
      (''text-davinci-001'', ''r50k_base''),
      (''text-curie-001'', ''r50k_base''),
      (''text-babbage-001'', ''r50k_base''),
      (''text-ada-001'', ''r50k_base''),
      (''davinci'', ''r50k_base''),
      (''curie'', ''r50k_base''),
      (''babbage'', ''r50k_base''),
      (''ada'', ''r50k_base''),
      (''code-davinci-002'', ''p50k_base''),
      (''code-davinci-001'', ''p50k_base''),
      (''code-cushman-002'', ''p50k_base''),
      (''code-cushman-001'', ''p50k_base''),
      (''davinci-codex'', ''p50k_base''),
      (''cushman-codex'', ''p50k_base''),
      (''text-davinci-edit-001'', ''p50k_edit''),
      (''code-davinci-edit-001'', ''p50k_edit''),
      (''text-similarity-davinci-001'', ''r50k_base''),
      (''text-similarity-curie-001'', ''r50k_base''),
      (''text-similarity-babbage-001'', ''r50k_base''),
      (''text-similarity-ada-001'', ''r50k_base''),
      (''text-search-davinci-doc-001'', ''r50k_base''),
      (''text-search-curie-doc-001'', ''r50k_base''),
      (''text-search-babbage-doc-001'', ''r50k_base''),
      (''text-search-ada-doc-001'', ''r50k_base''),
      (''code-search-babbage-code-001'', ''r50k_base''),
      (''code-search-ada-code-001'', ''r50k_base''),
      (''gpt2'', ''gpt2'')]"

text \<open>\<open>strings.HasPrefix(s, prefix)\<close>.\<close>

definition HasPrefix :: "string \<Rightarrow> string \<Rightarrow> bool" where
  "HasPrefix s prefix \<longleftrightarrow> length prefix \<le> length s \<and> take (length prefix) s = prefix"

text \<open>
  The loop \<open>for prefix, encoding := range modelPrefixToEncoding\<close>: it returns at the
  first entry, in the order of the iteration, whose prefix the model name has.
\<close>

fun range_prefixes :: "(string \<times> Encoding) list \<Rightarrow> string \<Rightarrow> error + Encoding" where
  "range_prefixes [] model = Inl ErrModelNotSupported"
| "range_prefixes ((prefix, encoding) # rest) model =
     (if HasPrefix model prefix then Inr encoding else range_prefixes rest model)"

text \<open>
  \<open>EncodingForModel\<close> (lines 266-276). Go does not fix the order in which \<open>range\<close> visits a map; the
  order of one call is the parameter \<open>order\<close>, a permutation of the entries of
  \<open>modelPrefixToEncoding\<close>.
\<close>

definition EncodingForModel :: "(string \<times> Encoding) list \<Rightarrow> string \<Rightarrow> error + Encoding" where
  "EncodingForModel order model =
     (case map_of modelToEncoding model of
        Some encoding \<Rightarrow> Inr encoding
      | None \<Rightarrow> range_prefixes order model)"

section \<open>Notions used to state the properties\<close>

text \<open>
  What a match sequence holds: the chunk strings in order, and the error that closes
  it, if any.
\<close>

fun chunks :: "matches \<Rightarrow> string list" where
  "chunks NoMatch = []"
| "chunks (MatchFault err) = []"
| "chunks (Match piece m) = piece # chunks m"

fun fault :: "matches \<Rightarrow> string option" where
  "fault NoMatch = None"
| "fault (MatchFault err) = Some err"
| "fault (Match piece m) = fault m"

text \<open>The body of the loop of \<open>Encode\<close> (lines 34-42) on one chunk.\<close>

definition encode_chunk :: "Codec \<Rightarrow> string \<Rightarrow> uint list \<times> string list" where
  "encode_chunk c piece =
     (case map_of (vocabulary c) piece of
        Some id' \<Rightarrow> ([id'], [piece])
      | None \<Rightarrow> bpe c piece)"


text \<open>What one merge leaves: entry \<open>j\<close> of the new array is entry \<open>j\<close> or \<open>j + 1\<close> of the old.\<close>

definition old_index :: "nat \<Rightarrow> nat \<Rightarrow> nat" where
  "old_index m j = (if j \<le> m then j else j + 1)"

text \<open>
  The loop invariant of \<open>bpe\<close>: the boundary array is not empty, its offsets rise
  strictly from \<open>0\<close> to \<open>len(piece)\<close>, and every entry but the last carries the score
  that \<open>getRank(i, 0)\<close> computes on the current array (so the entry before the last
  always carries \<open>MaxUint\<close>).
\<close>

definition parts_inv :: "Codec \<Rightarrow> string \<Rightarrow> part list \<Rightarrow> bool" where
  "parts_inv c piece parts \<longleftrightarrow>
     parts \<noteq> [] \<and> offset (hd parts) = 0 \<and> offset (last parts) = length piece \<and>
     sorted_wrt (<) (map offset parts) \<and>
     (\<forall>i \<in> {0..<length parts - 1}. rank (parts ! i) = getRank c piece parts i 0)"

text \<open>
  A second loop invariant, under the coverage of the single bytes: every span of the
  boundary array is a piece of the vocabulary. It holds of the one-byte spans at the
  start, and a merge makes a span only of a pair whose score is a rank.
\<close>

definition spans_known :: "Codec \<Rightarrow> string \<Rightarrow> part list \<Rightarrow> bool" where
  "spans_known c piece parts \<longleftrightarrow>
     (\<forall>i \<in> {0..<length parts - 1}.
        map_of (vocabulary c) (subslice piece (offset (parts ! i)) (offset (parts ! (i + 1)))) \<noteq> None)"


text \<open>The table that \<open>Decode\<close> reads: the one kept in the codec, or the one it builds.\<close>

definition reverse_of :: "Codec \<Rightarrow> reverse" where
  "reverse_of c = the (reverseVocabulary (ensure_reverse c))"

text \<open>
  The codecs that the package produces: \<open>reverseVocabulary\<close> is \<open>nil\<close> (as the constructors
  leave it) or the table that an earlier \<open>Decode\<close> built from the vocabulary.
\<close>

definition reverse_ok :: "Codec \<Rightarrow> bool" where
  "reverse_ok c \<longleftrightarrow>
     (case reverseVocabulary c of
        None \<Rightarrow> True
      | Some m \<Rightarrow> m = build_reverse (vocabulary c))"

text \<open>The largest rank of a vocabulary.\<close>

definition idMax :: "vocab \<Rightarrow> uint" where
  "idMax v = Max (snd ` set v)"

text \<open>
  Following the spec's words: the longest-prefix match of a model name against a
  table of prefixes is, among the entries whose prefix the name starts with, one of
  greatest prefix length; none when no entry matches.
\<close>

definition longer :: "string \<times> Encoding \<Rightarrow> string \<times> Encoding \<Rightarrow> string \<times> Encoding" where
  "longer a b = (if length (fst b) < length (fst a) then a else b)"

definition longest_prefix_match :: "(string \<times> Encoding) list \<Rightarrow> string \<Rightarrow> (string \<times> Encoding) option" where
  "longest_prefix_match table model =
     (case filter (\<lambda>(prefix, encoding). HasPrefix model prefix) table of
        [] \<Rightarrow> None
      | m # ms \<Rightarrow> Some (fold longer ms m))"

section \<open>Example codecs\<close>

text \<open>
  The vocabulary of the scenario: \<open>'a'=0, 'b'=1, 'c'=2, "ab"=3, "abc"=4\<close>, with a
  splitter that returns a non-empty input as one chunk.
\<close>

definition toy_vocab :: vocab where
  "toy_vocab = [(''a'', 0), (''b'', 1), (''c'', 2), (''ab'', 3), (''abc'', 4)]"

definition whole_input :: "string \<Rightarrow> matches" where
  "whole_input s = (if s = [] then NoMatch else Match s NoMatch)"

definition toy :: Codec where
  "toy = \<lparr>vocabulary = toy_vocab, reverseVocabulary = None, specialTokens = [],
          splitRegexp = whole_input, name = ''toy''\<rparr>"

text \<open>The toy vocabulary with a splitter whose pattern matches nothing.\<close>

definition no_match :: Codec where
  "no_match = toy\<lparr>splitRegexp := (\<lambda>s. NoMatch)\<rparr>"



section \<open>Count and Encode\<close>

lemma bpe_lengths: "length (fst (bpe c piece)) = length (snd (bpe c piece))"
  by (simp add: bpe_def emit_def Let_def)

lemma count_encode_loop:
  "count_loop c m (int (length ids)) =
     (case encode_loop c m ids tokens of
        Inl e \<Rightarrow> Inl e
      | Inr (ids', tokens') \<Rightarrow> Inr (int (length ids')))"
proof (induction m arbitrary: ids tokens)
  case NoMatch
  show ?case by simp
next
  case (MatchFault err)
  show ?case by simp
next
  case (Match piece m)
  show ?case
  proof (cases "map_of (vocabulary c) piece")
    case (Some r)
    have "int (length ids) + 1 = int (length (ids @ [r]))" by simp
    with Match [of "ids @ [r]" "tokens @ [piece]"] Some show ?thesis
      by (simp del: length_append)
  next
    case None
    obtain newIds newTokens where b: "bpe c piece = (newIds, newTokens)"
      by (cases "bpe c piece")
    with bpe_lengths [of c piece] have "length newIds = length newTokens" by simp
    then have "int (length ids) + int (length newTokens) = int (length (ids @ newIds))"
      by simp
    with Match [of "ids @ newIds" "tokens @ newTokens"] None b show ?thesis
      by (simp del: length_append)
  qed
qed

text \<open>
  Claim C2. For every codec and every input text, \<open>Count\<close> fails exactly when \<open>Encode\<close>
  fails (with the same matching error), and otherwise returns exactly the length of
  the id list that \<open>Encode\<close> returns.
\<close>

theorem Count_eq_length_Encode:
  "Count c t =
     (case Encode c t of
        Inl e \<Rightarrow> Inl e
      | Inr (ids, tokens) \<Rightarrow> Inr (int (length ids)))"
  using count_encode_loop [of c "splitRegexp c t" "[]" "[]"]
  by (simp add: Count_def Encode_def)

section \<open>The scenario of the toy vocabulary\<close>

text \<open>
  Claim C5. On the toy vocabulary and the chunk \<open>"abc"\<close> the merge engine starts with
  the scores 3 (for \<open>"ab"\<close>) and unrankable (for \<open>"bc"\<close>), so the first scan selects
  boundary 0 with score 3 and the merge leaves the spans \<open>"ab"\<close>, \<open>"c"\<close>; the second scan
  selects boundary 0 with score 4 and the merge leaves the single span \<open>"abc"\<close>; the
  result is the id list \<open>[4]\<close> with the piece \<open>"abc"\<close>.
\<close>

theorem bpe_toy_abc:
  "map rank (init_parts toy ''abc'') = [3, MaxUint, MaxUint, MaxUint]
   \<and> find_min (init_parts toy ''abc'') = (3, 0)
   \<and> map offset (merge_at toy ''abc'' (init_parts toy ''abc'') 0) = [0, 2, 3]
   \<and> find_min (merge_at toy ''abc'' (init_parts toy ''abc'') 0) = (4, 0)
   \<and> map offset (merge_at toy ''abc'' (merge_at toy ''abc'' (init_parts toy ''abc'') 0) 0)
       = [0, 3]
   \<and> bpe toy ''abc'' = ([4], [''abc''])"
  by code_simp

section \<open>Facts about the initial boundary array\<close>

lemma map_offset_set_rank [simp]: "map offset (set_rank parts i r) = map offset parts"
  by (cases "i < length parts") (simp_all add: set_rank_def map_update list_update_same_conv list_update_beyond)

lemma offset_set_rank [simp]: "offset (set_rank parts i r ! j) = offset (parts ! j)"
  by (cases "i < length parts") (auto simp: set_rank_def nth_list_update list_update_beyond)

lemma rank_set_rank:
  "j < length parts \<Longrightarrow> rank (set_rank parts i r ! j) = (if j = i then r else rank (parts ! j))"
  by (simp add: set_rank_def nth_list_update)

lemma getRank_cong:
  assumes "map offset P = map offset Q"
  shows "getRank c piece P i k = getRank c piece Q i k"
proof -
  from assms have l: "length P = length Q" by (rule map_eq_imp_length_eq)
  have "i + k + 2 < length P \<Longrightarrow> offset (P ! i) = offset (Q ! i) \<and>
        offset (P ! (i + k + 2)) = offset (Q ! (i + k + 2))"
  proof -
    assume b: "i + k + 2 < length P"
    then have "map offset P ! i = offset (P ! i)" "map offset P ! (i + k + 2) = offset (P ! (i + k + 2))"
      by simp_all
    moreover from b l have "map offset Q ! i = offset (Q ! i)" "map offset Q ! (i + k + 2) = offset (Q ! (i + k + 2))"
      by simp_all
    ultimately show ?thesis using assms by simp
  qed
  with l show ?thesis by (simp add: getRank_def)
qed

lemma getRank_set_rank [simp]:
  "getRank c piece (set_rank parts i r) j k = getRank c piece parts j k"
  by (rule getRank_cong) simp

lemma init_fold:
  "map offset (fold (\<lambda>i parts. set_rank parts i (getRank c piece parts i 0)) is P) = map offset P
   \<and> (\<forall>j < length P. rank (fold (\<lambda>i parts. set_rank parts i (getRank c piece parts i 0)) is P ! j)
        = (if j \<in> set is then getRank c piece P j 0 else rank (P ! j)))"
proof (induction "is" arbitrary: P)
  case Nil
  show ?case by simp
next
  case (Cons i "is")
  let ?P' = "set_rank P i (getRank c piece P i 0)"
  from Cons [of ?P'] show ?case
    by (auto simp: rank_set_rank)
qed

lemma map_offset_init [simp]: "map offset (init_parts c piece) = [0..<length piece + 1]"
proof -
  have "map offset (fresh_parts piece) = [0..<length piece + 1]"
    by (simp add: fresh_parts_def comp_def)
  with init_fold [of c piece _ "fresh_parts piece"] show ?thesis
    by (simp add: init_parts_def)
qed

lemma length_init [simp]: "length (init_parts c piece) = length piece + 1"
proof -
  have "length (init_parts c piece) = length (map offset (init_parts c piece))"
    by (simp only: length_map)
  then show ?thesis by simp
qed

lemma rank_init:
  assumes "j + 1 < length (init_parts c piece)"
  shows "rank (init_parts c piece ! j) = getRank c piece (init_parts c piece) j 0"
proof -
  have o: "map offset (init_parts c piece) = map offset (fresh_parts piece)"
    by (simp add: fresh_parts_def comp_def)
  from assms have j: "j < length (fresh_parts piece)" by (simp add: fresh_parts_def)
  have g: "getRank c piece (init_parts c piece) j 0 = getRank c piece (fresh_parts piece) j 0"
    by (rule getRank_cong [OF o])
  show ?thesis
  proof (cases "j + 2 < length piece + 1")
    case True
    then have "j \<in> set [0..<length piece + 1 - 2]" by auto
    with init_fold [of c piece "[0..<length piece + 1 - 2]" "fresh_parts piece"] j g
    show ?thesis by (simp add: init_parts_def del: set_upt)
  next
    case False
    then have "getRank c piece (fresh_parts piece) j 0 = MaxUint"
      by (simp add: getRank_def fresh_parts_def)
    moreover from False j have "rank (fresh_parts piece ! j) = MaxUint"
      by (simp add: fresh_parts_def del: upt_Suc)
    moreover from False have "j \<notin> set [0..<length piece + 1 - 2]" by auto
    ultimately show ?thesis
      using init_fold [of c piece "[0..<length piece + 1 - 2]" "fresh_parts piece"] j g
      by (simp add: init_parts_def del: set_upt)
  qed
qed

section \<open>Facts about one merge\<close>

lemma map_offset_merge_at:
  "map offset (merge_at c piece parts m) =
     take (m + 1) (map offset parts) @ drop (m + 2) (map offset parts)"
proof -
  let ?P1 = "set_rank parts m (getRank c piece parts m 1)"
  let ?P2 = "if m > 0 then set_rank ?P1 (m - 1) (getRank c piece ?P1 (m - 1) 1) else ?P1"
  have "map offset (merge_at c piece parts m) =
          take (m + 1) (map offset ?P2) @ drop (m + 2) (map offset ?P2)"
    by (simp add: merge_at_def Let_def take_map drop_map)
  moreover have "map offset ?P2 = map offset parts" by simp
  ultimately show ?thesis by (simp only:)
qed

lemma nth_take_drop:
  assumes "m + 2 \<le> length xs" and "j + 1 < length xs"
  shows "(take (m + 1) xs @ drop (m + 2) xs) ! j = xs ! old_index m j"
  using assms by (auto simp: nth_append old_index_def min_def)

lemma offset_merge_at:
  assumes "m + 2 \<le> length parts" and "j + 1 < length parts"
  shows "offset (merge_at c piece parts m ! j) = offset (parts ! old_index m j)"
proof -
  from assms have l: "j < length (merge_at c piece parts m)"
    by (simp add: length_merge_at)
  from assms have o: "old_index m j < length parts" by (simp add: old_index_def)
  from l have "offset (merge_at c piece parts m ! j) = map offset (merge_at c piece parts m) ! j"
    by simp
  also have "\<dots> = map offset parts ! old_index m j"
    using assms by (simp only: map_offset_merge_at, intro nth_take_drop) simp_all
  also from o have "\<dots> = offset (parts ! old_index m j)" by simp
  finally show ?thesis .
qed

lemma rank_merge_at:
  assumes "m + 2 \<le> length parts" and "j + 1 < length parts"
  shows "rank (merge_at c piece parts m ! j) =
          (if j = m then getRank c piece parts m 1
           else if j + 1 = m then getRank c piece parts j 1
           else rank (parts ! old_index m j))"
proof -
  let ?P1 = "set_rank parts m (getRank c piece parts m 1)"
  let ?P2 = "if m > 0 then set_rank ?P1 (m - 1) (getRank c piece ?P1 (m - 1) 1) else ?P1"
  have m: "merge_at c piece parts m = take (m + 1) ?P2 @ drop (m + 2) ?P2"
    by (simp add: merge_at_def Let_def)
  have l2: "length ?P2 = length parts" by simp
  from assms have o: "old_index m j < length parts" by (simp add: old_index_def)
  from assms l2 have "merge_at c piece parts m ! j = ?P2 ! old_index m j"
    unfolding m by (intro nth_take_drop) simp_all
  moreover from o have "rank (?P2 ! old_index m j) =
          (if j = m then getRank c piece parts m 1
           else if j + 1 = m then getRank c piece parts j 1
           else rank (parts ! old_index m j))"
    by (auto simp: rank_set_rank old_index_def)
  ultimately show ?thesis by simp
qed

section \<open>The loop invariant of the merge engine\<close>

lemma parts_inv_init: "parts_inv c piece (init_parts c piece)"
proof -
  let ?P = "init_parts c piece"
  have ne: "?P \<noteq> []"
  proof
    assume "?P = []"
    then have "length ?P = 0" by (simp only: list.size)
    then show False by simp
  qed
  have nth: "offset (?P ! k) = k" if "k < length piece + 1" for k
  proof -
    from that have "k < length ?P" by simp
    then have "map offset ?P ! k = offset (?P ! k)" by (rule nth_map)
    moreover have "map offset ?P ! k = [0..<length piece + 1] ! k"
      by (simp only: map_offset_init)
    moreover from that have "[0..<length piece + 1] ! k = k"
      by (simp del: upt_Suc)
    ultimately show ?thesis by simp
  qed
  from ne have h: "offset (hd ?P) = 0" by (simp add: hd_conv_nth nth)
  from ne have l: "offset (last ?P) = length piece" by (simp add: last_conv_nth nth)
  have s: "sorted_wrt (<) (map offset ?P)" by (simp del: upt_Suc)
  have r: "\<forall>i \<in> {0..<length ?P - 1}. rank (?P ! i) = getRank c piece ?P i 0"
    using rank_init [of _ c piece] by auto
  from ne h l s r show ?thesis unfolding parts_inv_def by blast
qed

lemma finite_rank_index:
  assumes "parts_inv c piece parts" and "find_min parts = (r, m)" and "r \<noteq> MaxUint"
  shows "m + 2 < length parts"
proof -
  from find_min_finite(1,2) [OF assms(2,3)] have m: "m < length parts - 1" "rank (parts ! m) = r"
    by simp_all
  with assms(1) have "getRank c piece parts m 0 = r" by (simp add: parts_inv_def)
  with assms(3) show ?thesis by (auto simp: getRank_def split: if_splits)
qed

lemma old_index_mono: "i < j \<Longrightarrow> old_index m i < old_index m j"
  by (simp add: old_index_def)

lemma parts_inv_merge_at:
  assumes inv: "parts_inv c piece parts" and fm: "find_min parts = (r, m)" and fin: "r \<noteq> MaxUint"
  shows "parts_inv c piece (merge_at c piece parts m)"
proof -
  let ?N = "merge_at c piece parts m"
  from finite_rank_index [OF assms] have m: "m + 2 < length parts" .
  then have m2: "m + 2 \<le> length parts" by simp
  from length_merge_at [OF m2] have len: "length ?N = length parts - 1" .
  with m have ne: "?N \<noteq> []" by auto
  from inv have pne: "parts \<noteq> []" and h0: "offset (hd parts) = 0"
    and l0: "offset (last parts) = length piece"
    and s0: "sorted_wrt (<) (map offset parts)"
    and r0: "\<And>i. i + 1 < length parts \<Longrightarrow> rank (parts ! i) = getRank c piece parts i 0"
    by (auto simp: parts_inv_def)
  have off: "\<And>j. j + 1 < length parts \<Longrightarrow> offset (?N ! j) = offset (parts ! old_index m j)"
    by (rule offset_merge_at [OF m2])
  have h: "offset (hd ?N) = 0"
  proof -
    from ne have "offset (hd ?N) = offset (?N ! 0)" by (simp add: hd_conv_nth)
    also from m have "\<dots> = offset (parts ! old_index m 0)" by (intro off) simp
    also from pne h0 have "\<dots> = 0" by (simp add: old_index_def hd_conv_nth)
    finally show ?thesis .
  qed
  have l: "offset (last ?N) = length piece"
  proof -
    from len have "length ?N - 1 = length parts - 2" by simp
    moreover from ne have "last ?N = ?N ! (length ?N - 1)" by (rule last_conv_nth)
    ultimately have "offset (last ?N) = offset (?N ! (length parts - 2))"
      by (simp only:)
    also from m have "\<dots> = offset (parts ! old_index m (length parts - 2))" by (intro off) simp
    also from m have "old_index m (length parts - 2) = length parts - 1"
      by (auto simp: old_index_def)
    also from pne l0 have "offset (parts ! (length parts - 1)) = length piece"
      by (simp add: last_conv_nth)
    finally show ?thesis .
  qed
  have s: "sorted_wrt (<) (map offset ?N)"
  proof -
    have "\<forall>i j. i < j \<longrightarrow> j < length (map offset ?N) \<longrightarrow> map offset ?N ! i < map offset ?N ! j"
    proof (intro allI impI)
      fix i j assume ij: "i < j" "j < length (map offset ?N)"
      with len have b: "j + 1 < length parts" "i + 1 < length parts" by simp_all
      then have ob: "old_index m j < length parts" by (simp add: old_index_def)
      from s0 old_index_mono [OF ij(1), of m] ob
      have "map offset parts ! old_index m i < map offset parts ! old_index m j"
        by (simp add: sorted_wrt_iff_nth_less del: nth_map)
      with ob old_index_mono [OF ij(1), of m]
      have "offset (parts ! old_index m i) < offset (parts ! old_index m j)" by simp
      with off [OF b(1)] off [OF b(2)] ij len show "map offset ?N ! i < map offset ?N ! j"
        by simp
    qed
    then show ?thesis by (simp only: sorted_wrt_iff_nth_less)
  qed
  have r: "\<forall>j \<in> {0..<length ?N - 1}. rank (?N ! j) = getRank c piece ?N j 0"
  proof
    fix j assume "j \<in> {0..<length ?N - 1}"
    with len have j: "j + 2 < length parts" by auto
    then have j1: "j + 1 < length parts" by simp
    show "rank (?N ! j) = getRank c piece ?N j 0"
    proof (cases "j + 2 < length ?N")
      case False
      with len j have jl: "j + 3 = length parts" by simp
      from False have g: "getRank c piece ?N j 0 = MaxUint" by (simp add: getRank_def)
      from jl m have "j = m \<or> m < j" by auto
      then show ?thesis
      proof
        assume "j = m"
        with jl rank_merge_at [OF m2 j1, of c piece] g show ?thesis
          by (simp add: getRank_def)
      next
        assume mj: "m < j"
        with jl have "old_index m j + 2 = length parts" by (simp add: old_index_def)
        then have "rank (parts ! old_index m j) = MaxUint"
          using r0 [of "old_index m j"] by (simp add: getRank_def)
        with mj rank_merge_at [OF m2 j1, of c piece] g show ?thesis by simp
      qed
    next
      case True
      with len have j3: "j + 3 < length parts" by simp
      from True have g: "getRank c piece ?N j 0 =
          (case map_of (vocabulary c) (subslice piece (offset (parts ! old_index m j))
                                          (offset (parts ! old_index m (j + 2)))) of
             Some r \<Rightarrow> r | None \<Rightarrow> MaxUint)"
        using off [of j] off [of "j + 2"] j3 by (simp add: getRank_def Let_def)
      consider "j = m" | "j + 1 = m" | "j + 1 < m" | "m < j" by linarith
      then show ?thesis
      proof cases
        case 1
        with j3 rank_merge_at [OF m2 j1, of c piece] g show ?thesis
          by (simp add: getRank_def Let_def old_index_def numeral_3_eq_3)
      next
        case 2
        with j3 rank_merge_at [OF m2 j1, of c piece] g show ?thesis
          by (auto simp: getRank_def Let_def old_index_def numeral_3_eq_3)
      next
        case 3
        with j3 rank_merge_at [OF m2 j1, of c piece] g r0 [of j] show ?thesis
          by (auto simp: getRank_def Let_def old_index_def)
      next
        case 4
        with j3 rank_merge_at [OF m2 j1, of c piece] g r0 [of "j + 1"] show ?thesis
          by (auto simp: getRank_def Let_def old_index_def numeral_3_eq_3)
      qed
    qed
  qed
  from ne h l s r show ?thesis unfolding parts_inv_def by blast
qed

section \<open>The tokens of a chunk concatenate to the chunk\<close>

lemma parts_inv_merge_loop:
  "parts_inv c piece parts \<Longrightarrow> parts_inv c piece (merge_loop c piece parts)"
proof (induction c piece parts rule: merge_loop.induct)
  case (1 c piece parts)
  obtain r m where fm: "find_min parts = (r, m)" by (cases "find_min parts")
  show ?case
  proof (cases "length parts = 1 \<or> r = MaxUint")
    case True
    with fm have "merge_loop c piece parts = parts"
      by (auto simp: merge_loop.simps [of c piece parts])
    with "1.prems" show ?thesis by simp
  next
    case False
    with fm have e: "merge_loop c piece parts = merge_loop c piece (merge_at c piece parts m)"
      by (simp add: merge_loop.simps [of c piece parts])
    from False fm "1.prems" have "parts_inv c piece (merge_at c piece parts m)"
      by (intro parts_inv_merge_at [of c piece parts r m]) simp_all
    with "1.IH" [of r m] False fm e show ?thesis by simp
  qed
qed

lemma subslice_append:
  assumes "a \<le> b" and "b \<le> d"
  shows "subslice xs a b @ subslice xs b d = subslice xs a d"
proof -
  from assms have "d - a = (b - a) + (d - b)" by simp
  moreover from assms have "drop b xs = drop (b - a) (drop a xs)" by simp
  ultimately show ?thesis by (simp only: subslice_def take_add)
qed

lemma concat_spans:
  assumes "sorted_wrt (<) (map offset parts)" and "k < length parts"
  shows "concat (map (\<lambda>i. subslice piece (offset (parts ! i)) (offset (parts ! (i + 1)))) [0..<k])
           = subslice piece (offset (parts ! 0)) (offset (parts ! k))"
  using assms(2)
proof (induction k)
  case 0
  show ?case by (simp add: subslice_def)
next
  case (Suc k)
  have le: "offset (parts ! i) \<le> offset (parts ! j)" if "i \<le> j" "j < length parts" for i j
  proof (cases "i = j")
    case False
    with that have "i < j" by simp
    with assms(1) that(2) have "map offset parts ! i < map offset parts ! j"
      by (simp add: sorted_wrt_iff_nth_less del: nth_map)
    with that show ?thesis by simp
  qed simp
  from Suc have "concat (map (\<lambda>i. subslice piece (offset (parts ! i)) (offset (parts ! (i + 1)))) [0..<Suc k])
      = subslice piece (offset (parts ! 0)) (offset (parts ! k))
        @ subslice piece (offset (parts ! k)) (offset (parts ! Suc k))"
    by simp
  also have "\<dots> = subslice piece (offset (parts ! 0)) (offset (parts ! Suc k))"
    using Suc.prems by (intro subslice_append le) simp_all
  finally show ?case .
qed

lemma concat_emit:
  assumes "parts_inv c piece parts"
  shows "concat (snd (emit c piece parts)) = piece"
proof -
  from assms have ne: "parts \<noteq> []" and h: "offset (hd parts) = 0"
    and l: "offset (last parts) = length piece"
    and s: "sorted_wrt (<) (map offset parts)"
    by (simp_all add: parts_inv_def)
  from ne have k: "length parts - 1 < length parts" by (cases parts) simp_all
  have "concat (snd (emit c piece parts))
          = subslice piece (offset (parts ! 0)) (offset (parts ! (length parts - 1)))"
    using concat_spans [OF s k, of piece] by (simp add: emit_def Let_def)
  also from ne h l have "\<dots> = subslice piece 0 (length piece)"
    by (simp add: hd_conv_nth last_conv_nth)
  finally show ?thesis by (simp add: subslice_def)
qed

lemma concat_bpe: "concat (snd (bpe c piece)) = piece"
  unfolding bpe_def
  by (intro concat_emit parts_inv_merge_loop parts_inv_init)

section \<open>Encode, chunk by chunk\<close>

lemma encode_loop_chunks:
  "encode_loop c m ids tokens =
     (case fault m of
        Some err \<Rightarrow> Inl (ErrorMatching err)
      | None \<Rightarrow> Inr (ids @ concat (map (\<lambda>p. fst (encode_chunk c p)) (chunks m)),
                    tokens @ concat (map (\<lambda>p. snd (encode_chunk c p)) (chunks m))))"
proof (induction m arbitrary: ids tokens)
  case NoMatch
  show ?case by simp
next
  case (MatchFault err)
  show ?case by simp
next
  case (Match piece m)
  show ?case
  proof (cases "map_of (vocabulary c) piece")
    case (Some r)
    with Match [of "ids @ [r]" "tokens @ [piece]"] show ?thesis
      by (simp add: encode_chunk_def split: option.splits)
  next
    case None
    obtain newIds newTokens where b: "bpe c piece = (newIds, newTokens)"
      by (cases "bpe c piece")
    with None Match [of "ids @ newIds" "tokens @ newTokens"] show ?thesis
      by (simp add: encode_chunk_def split: option.splits)
  qed
qed

lemma Encode_chunks:
  "Encode c t =
     (case fault (splitRegexp c t) of
        Some err \<Rightarrow> Inl (ErrorMatching err)
      | None \<Rightarrow> Inr (concat (map (\<lambda>p. fst (encode_chunk c p)) (chunks (splitRegexp c t))),
                    concat (map (\<lambda>p. snd (encode_chunk c p)) (chunks (splitRegexp c t)))))"
  by (simp add: Encode_def encode_loop_chunks split: option.splits)

lemma concat_encode_chunk: "concat (snd (encode_chunk c piece)) = piece"
  by (simp add: encode_chunk_def concat_bpe split: option.splits)

lemma concat_encode_chunks:
  "concat (concat (map (\<lambda>p. snd (encode_chunk c p)) ps)) = concat ps"
  by (induction ps) (simp_all add: concat_encode_chunk)

text \<open>
  Claim C3. For every codec and every chunk, the pieces that the merge engine returns
  concatenate, in order, to the chunk. Consequently, when \<open>Encode\<close> succeeds on a text
  whose chunks concatenate in order to the text, the pieces that \<open>Encode\<close> returns
  concatenate to the text.
\<close>

theorem pieces_reconstruct:
  "concat (snd (bpe c piece)) = piece
   \<and> (Encode c t = Inr (ids, tokens) \<and> concat (chunks (splitRegexp c t)) = t
        \<longrightarrow> concat tokens = t)"
proof (intro conjI impI)
  show "concat (snd (bpe c piece)) = piece" by (rule concat_bpe)
next
  assume a: "Encode c t = Inr (ids, tokens) \<and> concat (chunks (splitRegexp c t)) = t"
  then have "tokens = concat (map (\<lambda>p. snd (encode_chunk c p)) (chunks (splitRegexp c t)))"
    by (auto simp: Encode_chunks split: option.splits)
  with a show "concat tokens = t" by (simp add: concat_encode_chunks)
qed

theorem pieces_reconstruct_witness:
  "Encode toy ''abcab'' = Inr ([4, 3], [''abc'', ''ab''])
   \<and> concat (chunks (splitRegexp toy ''abcab'')) = ''abcab''
   \<and> concat (snd (bpe toy ''abcab'')) = ''abcab''
   \<and> concat [''abc'', ''ab''] = ''abcab''"
proof -
  have e: "Encode toy ''abcab'' = Inr ([4, 3], [''abc'', ''ab''])" by code_simp
  have k: "concat (chunks (splitRegexp toy ''abcab'')) = ''abcab''" by code_simp
  from pieces_reconstruct [of toy "''abcab''" "''abcab''" "[4, 3]" "[''abc'', ''ab'']"] e k
  show ?thesis by simp
qed

section \<open>Termination of the merge loop\<close>

lemma merge_loop_fuel_enough:
  "length parts \<le> Suc n \<Longrightarrow> merge_loop_fuel n c piece parts = Some (merge_loop c piece parts)"
proof (induction n arbitrary: parts)
  case 0
  obtain r m where fm: "find_min parts = (r, m)" by (cases "find_min parts")
  have "r = MaxUint"
  proof (rule ccontr)
    assume "r \<noteq> MaxUint"
    from find_min_finite(1) [OF fm this] 0 show False by simp
  qed
  with fm show ?case
    by (simp add: merge_loop_fuel.simps [of 0 c piece parts] merge_loop.simps [of c piece parts])
next
  case (Suc n)
  obtain r m where fm: "find_min parts = (r, m)" by (cases "find_min parts")
  show ?case
  proof (cases "length parts = 1 \<or> r = MaxUint")
    case True
    with fm show ?thesis
      by (auto simp: merge_loop_fuel.simps [of "Suc n" c piece parts]
                     merge_loop.simps [of c piece parts])
  next
    case False
    with merge_at_shorter [OF fm, of c piece] Suc.prems
    have "length (merge_at c piece parts m) \<le> Suc n" by simp
    from Suc.IH [OF this] False fm show ?thesis
      by (simp add: merge_loop_fuel.simps [of "Suc n" c piece parts]
                    merge_loop.simps [of c piece parts])
  qed
qed

text \<open>
  Claim C9. For every vocabulary and every boundary array, a pass of the merge loop
  that does not stop leaves an array with exactly one entry less; a bound of
  \<open>len(parts) - 1\<close> passes is therefore enough for the loop to stop, with the result of
  \<open>merge_loop\<close>; and for every chunk the loop of \<open>bpe\<close>, which starts from
  \<open>len(piece) + 1\<close> entries, stops within \<open>len(piece)\<close> passes.
\<close>

theorem merge_loop_terminates:
  "(find_min parts = (r, i) \<and> r \<noteq> MaxUint
      \<longrightarrow> length (merge_at c piece parts i) = length parts - 1
          \<and> length (merge_at c piece parts i) < length parts)
   \<and> (\<forall>n. length parts \<le> Suc n
          \<longrightarrow> merge_loop_fuel n c piece parts = Some (merge_loop c piece parts))
   \<and> merge_loop_fuel (length piece) c piece (init_parts c piece)
        = Some (merge_loop c piece (init_parts c piece))"
proof (intro conjI impI allI)
  assume a: "find_min parts = (r, i) \<and> r \<noteq> MaxUint"
  then have "i + 2 \<le> length parts"
    using find_min_finite(1) [of parts r i] by simp
  then show "length (merge_at c piece parts i) = length parts - 1"
    by (rule length_merge_at)
  from a show "length (merge_at c piece parts i) < length parts"
    by (simp add: merge_at_shorter)
next
  fix n assume "length parts \<le> Suc n"
  then show "merge_loop_fuel n c piece parts = Some (merge_loop c piece parts)"
    by (rule merge_loop_fuel_enough)
next
  show "merge_loop_fuel (length piece) c piece (init_parts c piece)
        = Some (merge_loop c piece (init_parts c piece))"
    by (rule merge_loop_fuel_enough) simp
qed

theorem merge_loop_terminates_witness:
  "find_min (init_parts toy ''abc'') = (3, 0) \<and> (3 :: uint) \<noteq> MaxUint
   \<and> length (init_parts toy ''abc'') = 4
   \<and> length (merge_at toy ''abc'' (init_parts toy ''abc'') 0) = 3
   \<and> merge_loop_fuel 3 toy ''abc'' (init_parts toy ''abc'')
        = Some (merge_loop toy ''abc'' (init_parts toy ''abc''))
   \<and> merge_loop_fuel 1 toy ''abc'' (init_parts toy ''abc'') = None"
proof -
  have f: "find_min (init_parts toy ''abc'') = (3, 0)" by code_simp
  have n: "(3 :: uint) \<noteq> MaxUint" by (simp add: MaxUint_def)
  have l: "length (init_parts toy ''abc'') = 4" by simp
  have o: "merge_loop_fuel 1 toy ''abc'' (init_parts toy ''abc'') = None" by code_simp
  from merge_loop_terminates [of "init_parts toy ''abc''" 3 0 toy "''abc''"] f n l o
  show ?thesis by simp
qed

section \<open>The selection rule of the merge loop\<close>



lemma merge_loop_stop:
  "length parts = 1 \<or> fst (find_min parts) = MaxUint \<Longrightarrow> merge_loop c piece parts = parts"
  by (auto simp: merge_loop.simps [of c piece parts] split: prod.splits)

lemma merge_loop_pass:
  "length parts \<noteq> 1 \<Longrightarrow> find_min parts = (r, i) \<Longrightarrow> r \<noteq> MaxUint \<Longrightarrow>
     merge_loop c piece parts = merge_loop c piece (merge_at c piece parts i)"
  by (simp add: merge_loop.simps [of c piece parts])




section \<open>Pieces absent from the vocabulary\<close>

lemma encode_chunk_ids:
  "fst (encode_chunk c piece) = map (lookup0 (vocabulary c)) (snd (encode_chunk c piece))"
  by (simp add: encode_chunk_def lookup0_def bpe_def emit_def Let_def split: option.splits)

lemma encode_chunks_ids:
  "concat (map (\<lambda>p. fst (encode_chunk c p)) ps)
     = map (lookup0 (vocabulary c)) (concat (map (\<lambda>p. snd (encode_chunk c p)) ps))"
  by (induction ps) (simp_all add: encode_chunk_ids)

lemma Encode_ids:
  "Encode c t = Inr (ids, tokens) \<Longrightarrow> ids = map (lookup0 (vocabulary c)) tokens"
  by (auto simp: Encode_chunks encode_chunks_ids split: option.splits)

text \<open>
  Claim C10. The ids that the merge engine returns are the zero-default lookups of its
  pieces, so a piece absent from the vocabulary gets id \<open>0\<close> and no error is raised;
  \<open>Encode\<close> fails exactly when the splitter's match sequence ends in an error, and with
  that error; when the splitter does not fail \<open>Encode\<close> succeeds, its ids again being the
  zero-default lookups of its pieces (a chunk absent from the vocabulary contributes
  the result of the merge engine unchanged).
\<close>

theorem absent_piece_gets_zero:
  "fst (bpe c piece) = map (lookup0 (vocabulary c)) (snd (bpe c piece))
   \<and> (\<forall>k < length (snd (bpe c piece)).
        map_of (vocabulary c) (snd (bpe c piece) ! k) = None \<longrightarrow> fst (bpe c piece) ! k = 0)
   \<and> (Encode c t = Inl e \<longleftrightarrow>
        (\<exists>err. fault (splitRegexp c t) = Some err \<and> e = ErrorMatching err))
   \<and> (fault (splitRegexp c t) = None \<longrightarrow>
        (\<exists>ids tokens. Encode c t = Inr (ids, tokens)
           \<and> ids = map (lookup0 (vocabulary c)) tokens))
   \<and> (splitRegexp c t = Match piece NoMatch \<and> map_of (vocabulary c) piece = None \<longrightarrow>
        Encode c t = Inr (bpe c piece))"
proof (intro conjI)
  show b: "fst (bpe c piece) = map (lookup0 (vocabulary c)) (snd (bpe c piece))"
    by (simp add: bpe_def emit_def Let_def)
  show "\<forall>k < length (snd (bpe c piece)).
        map_of (vocabulary c) (snd (bpe c piece) ! k) = None \<longrightarrow> fst (bpe c piece) ! k = 0"
    by (simp add: b lookup0_def)
  show "Encode c t = Inl e \<longleftrightarrow>
        (\<exists>err. fault (splitRegexp c t) = Some err \<and> e = ErrorMatching err)"
    by (auto simp: Encode_chunks split: option.splits)
  show "fault (splitRegexp c t) = None \<longrightarrow>
        (\<exists>ids tokens. Encode c t = Inr (ids, tokens)
           \<and> ids = map (lookup0 (vocabulary c)) tokens)"
    by (simp add: Encode_chunks encode_chunks_ids)
  show "splitRegexp c t = Match piece NoMatch \<and> map_of (vocabulary c) piece = None \<longrightarrow>
        Encode c t = Inr (bpe c piece)"
    by (simp add: Encode_def)
qed

text \<open>On the toy vocabulary the byte \<open>'d'\<close> is no piece: \<open>"abd"\<close> encodes to \<open>"ab"\<close>, \<open>"d"\<close>
  with the ids 3 and 0.\<close>

theorem absent_piece_gets_zero_witness:
  "splitRegexp toy ''abd'' = Match ''abd'' NoMatch
   \<and> fault (splitRegexp toy ''abd'') = None
   \<and> map_of (vocabulary toy) ''abd'' = None
   \<and> bpe toy ''abd'' = ([3, 0], [''ab'', ''d''])
   \<and> (1 :: nat) < length (snd (bpe toy ''abd''))
   \<and> map_of (vocabulary toy) (snd (bpe toy ''abd'') ! 1) = None
   \<and> fst (bpe toy ''abd'') ! 1 = 0
   \<and> Encode toy ''abd'' = Inr ([3, 0], [''ab'', ''d''])"
proof -
  have s: "splitRegexp toy ''abd'' = Match ''abd'' NoMatch" by code_simp
  have f: "fault (splitRegexp toy ''abd'') = None" by code_simp
  have v: "map_of (vocabulary toy) ''abd'' = None" by code_simp
  have b: "bpe toy ''abd'' = ([3, 0], [''ab'', ''d''])" by code_simp
  have m: "map_of (vocabulary toy) ''d'' = None" by code_simp
  from absent_piece_gets_zero [of toy "''abd''" "''abd''"] s f v b m
  show ?thesis by simp
qed

section \<open>Decode\<close>

lemma reverse_of_ok: "reverse_ok c \<Longrightarrow> reverse_of c = build_reverse (vocabulary c)"
  by (auto simp: reverse_ok_def reverse_of_def ensure_reverse_def split: option.splits)

lemma Decode_keeps_ok: "reverse_ok c \<Longrightarrow> reverse_ok (snd (Decode c tokens))"
  by (auto simp: reverse_ok_def Decode_def ensure_reverse_def Let_def split: option.splits)

lemma decode_loop_find:
  "decode_loop m ts out =
     (case find (\<lambda>t. m t = None) ts of
        Some t \<Rightarrow> Inl (InvalidToken t)
      | None \<Rightarrow> Inr (out @ concat (map (\<lambda>t. the (m t)) ts)))"
  by (induction ts arbitrary: out) (auto split: option.splits)

lemma fold_reverse_dom:
  "dom (fold (\<lambda>(k, r) m. m(r \<mapsto> k)) v m0) = dom m0 \<union> snd ` set v"
  by (induction v arbitrary: m0) (auto split: prod.splits if_splits)

lemma dom_build_reverse: "dom (build_reverse v) = snd ` set v"
  by (simp add: build_reverse_def fold_reverse_dom)

lemma idMax_succ_fresh:
  assumes "idMax v \<noteq> MaxUint"
  shows "idMax v + 1 \<notin> snd ` set v"
proof
  assume a: "idMax v + 1 \<in> snd ` set v"
  then have "idMax v + 1 \<le> idMax v" by (simp add: idMax_def)
  then have "idMax v = - 1" by (rule inc_less_eq_triv_imp)
  with assms show False by (simp add: MaxUint_def)
qed

text \<open>
  Claim C7. For every id list, \<open>Decode\<close> returns the error \<open>invalid token\<close> for the first
  id of the list that has no piece in the reverse table, and no text; when every id
  has a piece it returns the pieces concatenated in the order of the ids. On a codec
  as the package produces it, the ids with a piece are exactly the ranks of the
  vocabulary, so \<open>Decode([idMax+1])\<close> fails whenever \<open>idMax + 1\<close> is a \<open>uint\<close>, that is,
  whenever the largest rank \<open>idMax\<close> is below \<open>math.MaxUint\<close>.
\<close>

theorem Decode_first_unknown:
  "fst (Decode c tokens) =
     (case find (\<lambda>t. reverse_of c t = None) tokens of
        Some t \<Rightarrow> Inl (InvalidToken t)
      | None \<Rightarrow> Inr (concat (map (\<lambda>t. the (reverse_of c t)) tokens)))
   \<and> (reverse_ok c \<longrightarrow> dom (reverse_of c) = snd ` set (vocabulary c))
   \<and> (reverse_ok c \<and> idMax (vocabulary c) \<noteq> MaxUint \<longrightarrow>
        fst (Decode c [idMax (vocabulary c) + 1])
          = Inl (InvalidToken (idMax (vocabulary c) + 1)))"
proof (intro conjI impI)
  show d: "fst (Decode c tokens) =
     (case find (\<lambda>t. reverse_of c t = None) tokens of
        Some t \<Rightarrow> Inl (InvalidToken t)
      | None \<Rightarrow> Inr (concat (map (\<lambda>t. the (reverse_of c t)) tokens)))" for tokens
    by (simp add: Decode_def Let_def reverse_of_def decode_loop_find split: option.splits)
  show "dom (reverse_of c) = snd ` set (vocabulary c)" if "reverse_ok c"
    using that by (simp add: reverse_of_ok dom_build_reverse)
  show "fst (Decode c [idMax (vocabulary c) + 1])
          = Inl (InvalidToken (idMax (vocabulary c) + 1))"
    if a: "reverse_ok c \<and> idMax (vocabulary c) \<noteq> MaxUint"
  proof -
    from a have "idMax (vocabulary c) + 1 \<notin> dom (reverse_of c)"
      by (simp add: reverse_of_ok dom_build_reverse idMax_succ_fresh)
    then have "reverse_of c (idMax (vocabulary c) + 1) = None" by blast
    then show ?thesis by (simp add: d)
  qed
qed

text \<open>
  On the toy codec: the ranks are 0 to 4, so the id 5 has no piece; a list that holds
  it fails at it, whatever follows.
\<close>

theorem Decode_first_unknown_witness:
  "reverse_ok toy \<and> idMax (vocabulary toy) = 4 \<and> idMax (vocabulary toy) \<noteq> MaxUint
   \<and> fst (Decode toy [4 + 1]) = Inl (InvalidToken (4 + 1))
   \<and> fst (Decode toy [3, 2]) = Inr ''abc''"
proof -
  have r: "reverse_ok toy" by (simp add: reverse_ok_def toy_def)
  have i: "idMax (vocabulary toy) = 4" by (simp add: idMax_def toy_def toy_vocab_def)
  have n: "(4 :: uint) \<noteq> MaxUint" by (simp add: MaxUint_def)
  have "reverse_of toy 3 = Some ''ab''" "reverse_of toy 2 = Some ''c''"
    by (simp_all add: reverse_of_def ensure_reverse_def build_reverse_def toy_def toy_vocab_def)
  with Decode_first_unknown [of toy "[3, 2]"] Decode_first_unknown [of toy "[]"] r i n
  show ?thesis by simp
qed

section \<open>Decode after Encode\<close>

lemma fold_reverse_other:
  "r \<notin> snd ` set v \<Longrightarrow> fold (\<lambda>(k, r) m. m(r \<mapsto> k)) v m0 r = m0 r"
  by (induction v arbitrary: m0) (auto split: prod.splits)

lemma fold_reverse_entry:
  "distinct (map snd v) \<Longrightarrow> (k, r) \<in> set v \<Longrightarrow>
     fold (\<lambda>(k, r) m. m(r \<mapsto> k)) v m0 r = Some k"
proof (induction v arbitrary: m0)
  case Nil
  then show ?case by simp
next
  case (Cons e v)
  obtain k0 r0 where e: "e = (k0, r0)" by (cases e)
  show ?case
  proof (cases "(k, r) = (k0, r0)")
    case True
    with Cons.prems e have "r \<notin> snd ` set v" by auto
    then have "fold (\<lambda>(k, r) m. m(r \<mapsto> k)) v (m0(r0 \<mapsto> k0)) r = (m0(r0 \<mapsto> k0)) r"
      by (rule fold_reverse_other)
    with True e show ?thesis
      by (simp add: fun_upd_same del: fun_upd_apply)
  next
    case False
    with Cons.prems e have "(k, r) \<in> set v" "distinct (map snd v)" by auto
    from Cons.IH [OF this(2,1), of "m0(r0 \<mapsto> k0)"] e show ?thesis
      by (simp del: fun_upd_apply)
  qed
qed

lemma build_reverse_lookup:
  assumes "distinct (map snd v)" and "map_of v p = Some r"
  shows "build_reverse v r = Some p"
  unfolding build_reverse_def
  using assms(1) map_of_SomeD [OF assms(2)] by (rule fold_reverse_entry)

lemma reverse_of_lookup0:
  assumes "distinct (map snd v)" and "map_of v p \<noteq> None"
  shows "build_reverse v (lookup0 v p) = Some p"
proof -
  from assms(2) obtain r where r: "map_of v p = Some r" by auto
  then have "lookup0 v p = r" by (simp add: lookup0_def)
  with build_reverse_lookup [OF assms(1) r] show ?thesis by simp
qed

lemma Encode_pieces_concat:
  assumes "Encode c t = Inr (ids, tokens)"
  shows "concat tokens = concat (chunks (splitRegexp c t))"
proof -
  from assms have "tokens = concat (map (\<lambda>p. snd (encode_chunk c p)) (chunks (splitRegexp c t)))"
    by (auto simp: Encode_chunks split: option.splits)
  then show ?thesis by (simp add: concat_encode_chunks)
qed

lemma decode_lookups:
  assumes "distinct (map snd v)" and "\<forall>p \<in> set tokens. map_of v p \<noteq> None"
  shows "decode_loop (build_reverse v) (map (lookup0 v) tokens) out = Inr (out @ concat tokens)"
  using assms(2)
proof (induction tokens arbitrary: out)
  case Nil
  show ?case by simp
next
  case (Cons p ps)
  then have "build_reverse v (lookup0 v p) = Some p"
    using reverse_of_lookup0 [OF assms(1), of p] by simp
  with Cons show ?case by simp
qed

text \<open>
  Claim C1, as stated, fails. The toy vocabulary is injective and lacks the byte \<open>'d'\<close>:
  the text \<open>"abd"\<close> is encoded without error to the ids 3 and 0 (the zero value standing
  for the absent piece \<open>"d"\<close>), and \<open>Decode\<close> turns them into \<open>"aba"\<close>. (And where the
  splitter's chunks do not cover the text, as with a pattern that matches nothing,
  \<open>Encode\<close> succeeds with less than the text.)
\<close>

theorem roundtrip_unknown_byte_counterexample:
  "distinct (map snd (vocabulary toy)) \<and> reverse_ok toy
   \<and> concat (chunks (splitRegexp toy ''abd'')) = ''abd''
   \<and> Encode toy ''abd'' = Inr ([3, 0], [''ab'', ''d''])
   \<and> fst (Decode toy [3, 0]) = Inr ''aba''
   \<and> fst (Decode toy [3, 0]) \<noteq> Inr ''abd''
   \<and> distinct (map snd (vocabulary no_match)) \<and> reverse_ok no_match
   \<and> Encode no_match ''a'' = Inr ([], [])
   \<and> fst (Decode no_match []) = Inr []
   \<and> fst (Decode no_match []) \<noteq> Inr ''a''"
proof -
  have 1: "distinct (map snd (vocabulary toy))" "reverse_ok toy"
    "concat (chunks (splitRegexp toy ''abd'')) = ''abd''"
    by (simp_all add: toy_def toy_vocab_def reverse_ok_def whole_input_def)
  have 2: "Encode toy ''abd'' = Inr ([3, 0], [''ab'', ''d''])" by code_simp
  have 3: "fst (Decode toy [3, 0]) = Inr ''aba''"
    by (simp add: Decode_def ensure_reverse_def build_reverse_def toy_def toy_vocab_def Let_def)
  have 4: "distinct (map snd (vocabulary no_match))" "reverse_ok no_match"
    by (simp_all add: no_match_def toy_def toy_vocab_def reverse_ok_def)
  have 5: "Encode no_match ''a'' = Inr ([], [])"
    by (simp add: Encode_def no_match_def)
  have 6: "fst (Decode no_match []) = Inr []"
    by (simp add: Decode_def Let_def)
  from 1 2 3 4 5 6 show ?thesis by simp
qed

text \<open>
  Claim C1, amended. On a codec whose vocabulary is injective (no rank belongs to two
  pieces), for every text that \<open>Encode\<close> maps without error to ids and pieces such that
  the splitter's chunks concatenate to the text and every returned piece is in the
  vocabulary (no piece was given the id 0 for want of a rank), \<open>Decode\<close> of the ids
  succeeds and returns the text.
\<close>

theorem roundtrip:
  assumes "distinct (map snd (vocabulary c))" and "reverse_ok c"
    and "Encode c t = Inr (ids, tokens)"
    and "concat (chunks (splitRegexp c t)) = t"
    and "\<forall>p \<in> set tokens. map_of (vocabulary c) p \<noteq> None"
  shows "fst (Decode c ids) = Inr t"
proof -
  from assms(3) have i: "ids = map (lookup0 (vocabulary c)) tokens" by (rule Encode_ids)
  from Encode_pieces_concat [OF assms(3)] assms(4) have k: "concat tokens = t"
    by simp
  have "fst (Decode c ids) = decode_loop (reverse_of c) ids []"
    by (simp add: Decode_def Let_def reverse_of_def)
  also from assms(2) have "\<dots> = decode_loop (build_reverse (vocabulary c)) ids []"
    by (simp add: reverse_of_ok)
  also from decode_lookups [OF assms(1,5)] i have "\<dots> = Inr ([] @ concat tokens)"
    by simp
  finally show ?thesis using k by simp
qed

theorem roundtrip_witness:
  "distinct (map snd (vocabulary toy)) \<and> reverse_ok toy
   \<and> Encode toy ''abcab'' = Inr ([4, 3], [''abc'', ''ab''])
   \<and> concat (chunks (splitRegexp toy ''abcab'')) = ''abcab''
   \<and> map_of (vocabulary toy) ''abc'' \<noteq> None \<and> map_of (vocabulary toy) ''ab'' \<noteq> None
   \<and> fst (Decode toy [4, 3]) = Inr ''abcab''"
proof -
  have d: "distinct (map snd (vocabulary toy))" by (simp add: toy_def toy_vocab_def)
  have r: "reverse_ok toy" by (simp add: reverse_ok_def toy_def)
  have e: "Encode toy ''abcab'' = Inr ([4, 3], [''abc'', ''ab''])" by code_simp
  have k: "concat (chunks (splitRegexp toy ''abcab'')) = ''abcab''" by code_simp
  have m: "map_of (vocabulary toy) ''abc'' \<noteq> None" "map_of (vocabulary toy) ''ab'' \<noteq> None"
    by (simp_all add: toy_def toy_vocab_def)
  then have a: "\<forall>p \<in> set [''abc'', ''ab'']. map_of (vocabulary toy) p \<noteq> None" by simp
  from roundtrip [OF d r e k a] d r e k m show ?thesis by simp
qed

section \<open>Single bytes\<close>







section \<open>The resolution of model names\<close>

lemma fold_longer:
  "fold longer ms m \<in> set (m # ms) \<and>
   (\<forall>e \<in> set (m # ms). length (fst e) \<le> length (fst (fold longer ms m)))"
proof (induction ms arbitrary: m)
  case Nil
  show ?case by simp
next
  case (Cons x xs)
  from Cons [of "longer x m"] show ?case
    by (auto simp: longer_def split: if_splits)
qed

lemma longest_prefix_match_Some:
  assumes "longest_prefix_match table model = Some (p, e)"
  shows "(p, e) \<in> set table" and "HasPrefix model p"
    and "\<forall>(q, e') \<in> set table. HasPrefix model q \<longrightarrow> length q \<le> length p"
proof -
  let ?ms = "filter (\<lambda>(prefix, encoding). HasPrefix model prefix) table"
  from assms obtain m ms where ms: "?ms = m # ms" and f: "fold longer ms m = (p, e)"
    by (auto simp: longest_prefix_match_def split: list.splits)
  from fold_longer [of ms m] f ms have in_ms: "(p, e) \<in> set ?ms"
    and mx: "\<forall>x \<in> set ?ms. length (fst x) \<le> length p"
    by simp_all
  from in_ms show "(p, e) \<in> set table" "HasPrefix model p" by simp_all
  from mx show "\<forall>(q, e') \<in> set table. HasPrefix model q \<longrightarrow> length q \<le> length p"
    by auto
qed

lemma longest_prefix_match_None:
  "longest_prefix_match table model = None \<longleftrightarrow>
     (\<forall>(q, e') \<in> set table. \<not> HasPrefix model q)"
proof -
  have "longest_prefix_match table model = None \<longleftrightarrow>
          filter (\<lambda>(prefix, encoding). HasPrefix model prefix) table = []"
    by (simp add: longest_prefix_match_def split: list.splits)
  then show ?thesis by (auto simp: filter_empty_conv)
qed

lemma range_prefixes_result:
  "range_prefixes order model = Inr e \<Longrightarrow> \<exists>p. (p, e) \<in> set order \<and> HasPrefix model p"
  by (induction order model rule: range_prefixes.induct) (auto split: if_splits)

lemma range_prefixes_fails:
  "range_prefixes order model = Inl x \<longleftrightarrow>
     x = ErrModelNotSupported \<and> (\<forall>(q, e') \<in> set order. \<not> HasPrefix model q)"
  by (induction order model rule: range_prefixes.induct) auto

lemma prefix_encodings_agree:
  "(p, e) \<in> set modelPrefixToEncoding \<Longrightarrow> e = ''cl100k_base''"
  by (auto simp: modelPrefixToEncoding_def)

text \<open>
  Claim C8. For every model name, whatever the order in which the \<open>range\<close> loop visits
  the prefix table: \<open>EncodingForModel\<close> returns the encoding of the exact-match table
  when the name is a key of it; otherwise, when some known prefix matches, the
  encoding of the longest matching prefix; otherwise the error \<open>model not supported\<close>.
  (The loop returns at the first matching prefix it visits; every entry of the prefix
  table carries the same encoding, so this is the encoding of the longest one.)
\<close>

theorem EncodingForModel_resolution:
  assumes "mset order = mset modelPrefixToEncoding"
  shows "EncodingForModel order model =
           (case map_of modelToEncoding model of
              Some encoding \<Rightarrow> Inr encoding
            | None \<Rightarrow>
                (case longest_prefix_match modelPrefixToEncoding model of
                   Some (prefix, encoding) \<Rightarrow> Inr encoding
                 | None \<Rightarrow> Inl ErrModelNotSupported))"
proof (cases "map_of modelToEncoding model")
  case (Some encoding)
  then show ?thesis by (simp add: EncodingForModel_def)
next
  case None
  from assms have so: "set order = set modelPrefixToEncoding" by (rule mset_eq_setD)
  show ?thesis
  proof (cases "longest_prefix_match modelPrefixToEncoding model")
    case n: None
    then have "\<forall>(q, e') \<in> set order. \<not> HasPrefix model q"
      by (simp add: longest_prefix_match_None so)
    then have "range_prefixes order model = Inl ErrModelNotSupported"
      by (simp add: range_prefixes_fails)
    with None n show ?thesis by (simp add: EncodingForModel_def)
  next
    case (Some pe)
    obtain p e where pe: "pe = (p, e)" by (cases pe)
    from longest_prefix_match_Some(1,2) [OF Some [unfolded pe]]
    have m: "(p, e) \<in> set order" "HasPrefix model p" by (simp_all add: so)
    from m(1) have e: "e = ''cl100k_base''" by (simp add: so prefix_encodings_agree)
    obtain res where res: "range_prefixes order model = res" by simp
    have "res = Inr ''cl100k_base''"
    proof (cases res)
      case (Inl x)
      with res range_prefixes_fails [of order model x] m show ?thesis by auto
    next
      case (Inr e')
      with res range_prefixes_result [of order model e'] so
      show ?thesis by (auto dest: prefix_encodings_agree)
    qed
    with res None Some pe e show ?thesis by (simp add: EncodingForModel_def)
  qed
qed

text \<open>
  With the table visited in reverse: an exact match, a prefix match, and a name that
  matches neither.
\<close>

theorem EncodingForModel_resolution_witness:
  "mset (rev modelPrefixToEncoding) = mset modelPrefixToEncoding
   \<and> EncodingForModel (rev modelPrefixToEncoding) ''text-davinci-003'' = Inr ''p50k_base''
   \<and> EncodingForModel (rev modelPrefixToEncoding) ''gpt-4-0314'' = Inr ''cl100k_base''
   \<and> longest_prefix_match modelPrefixToEncoding ''gpt-4-0314'' = Some (''gpt-4-'', ''cl100k_base'')
   \<and> EncodingForModel (rev modelPrefixToEncoding) ''llama'' = Inl ErrModelNotSupported"
proof -
  have p: "mset (rev modelPrefixToEncoding) = mset modelPrefixToEncoding" by simp
  have 1: "map_of modelToEncoding ''text-davinci-003'' = Some ''p50k_base''" by code_simp
  have 2: "map_of modelToEncoding ''gpt-4-0314'' = None" by code_simp
  have 3: "longest_prefix_match modelPrefixToEncoding ''gpt-4-0314''
             = Some (''gpt-4-'', ''cl100k_base'')" by code_simp
  have 4: "map_of modelToEncoding ''llama'' = None" by code_simp
  have 5: "longest_prefix_match modelPrefixToEncoding ''llama'' = None" by code_simp
  from EncodingForModel_resolution [OF p, of "''text-davinci-003''"]
    EncodingForModel_resolution [OF p, of "''gpt-4-0314''"]
    EncodingForModel_resolution [OF p, of "''llama''"] p 1 2 3 4 5
  show ?thesis by simp
qed

section \<open>Single-byte coverage resolves every piece\<close>

lemma offset_init_nth:
  assumes "k < length piece + 1"
  shows "offset (init_parts c piece ! k) = k"
proof -
  from assms have "k < length (init_parts c piece)" by simp
  then have "map offset (init_parts c piece) ! k = offset (init_parts c piece ! k)"
    by (rule nth_map)
  moreover have "map offset (init_parts c piece) ! k = [0..<length piece + 1] ! k"
    by (simp only: map_offset_init)
  moreover from assms have "[0..<length piece + 1] ! k = k"
    by (simp del: upt_Suc)
  ultimately show ?thesis by simp
qed

lemma subslice_one: "i < length xs \<Longrightarrow> subslice xs i (Suc i) = [xs ! i]"
  by (simp add: subslice_def take_Suc hd_drop_conv_nth)

lemma spans_known_init:
  assumes "\<forall>b. map_of (vocabulary c) [b] \<noteq> None"
  shows "spans_known c piece (init_parts c piece)"
  unfolding spans_known_def
proof
  fix i assume "i \<in> {0..<length (init_parts c piece) - 1}"
  then have i: "i < length piece" by simp
  then have "subslice piece (offset (init_parts c piece ! i)) (offset (init_parts c piece ! (i + 1)))
               = [piece ! i]"
    by (simp add: offset_init_nth subslice_one del: upt_Suc)
  with assms show "map_of (vocabulary c)
      (subslice piece (offset (init_parts c piece ! i)) (offset (init_parts c piece ! (i + 1)))) \<noteq> None"
    by simp
qed

lemma spans_known_merge_at:
  assumes inv: "parts_inv c piece parts" and fm: "find_min parts = (r, m)" and fin: "r \<noteq> MaxUint"
    and known: "spans_known c piece parts"
  shows "spans_known c piece (merge_at c piece parts m)"
  unfolding spans_known_def
proof
  let ?N = "merge_at c piece parts m"
  fix j assume "j \<in> {0..<length ?N - 1}"
  from finite_rank_index [OF inv fm fin] have m: "m + 2 < length parts" .
  then have m2: "m + 2 \<le> length parts" by simp
  from length_merge_at [OF m2] \<open>j \<in> {0..<length ?N - 1}\<close> have j: "j + 2 < length parts"
    by auto
  have o1: "offset (?N ! j) = offset (parts ! old_index m j)"
    using j by (intro offset_merge_at [OF m2]) simp
  have o2: "offset (?N ! Suc j) = offset (parts ! old_index m (Suc j))"
    using offset_merge_at [OF m2, of "j + 1" c piece] j by simp
  from o1 o2 have e: "subslice piece (offset (?N ! j)) (offset (?N ! (j + 1)))
      = subslice piece (offset (parts ! old_index m j)) (offset (parts ! old_index m (Suc j)))"
    by simp
  have k: "map_of (vocabulary c) (subslice piece (offset (parts ! i)) (offset (parts ! (i + 1)))) \<noteq> None"
    if "i + 1 < length parts" for i
    using known that by (simp add: spans_known_def)
  consider "j < m" | "j = m" | "m < j" by linarith
  then show "map_of (vocabulary c) (subslice piece (offset (?N ! j)) (offset (?N ! (j + 1)))) \<noteq> None"
  proof cases
    case 1
    with k [of j] j show ?thesis unfolding e by (simp add: old_index_def)
  next
    case 2
    from find_min_finite(1,2) [OF fm fin] inv have "getRank c piece parts m 0 = r"
      by (simp add: parts_inv_def)
    with fin m have "map_of (vocabulary c)
        (subslice piece (offset (parts ! m)) (offset (parts ! (m + 2)))) \<noteq> None"
      by (auto simp: getRank_def Let_def split: option.splits)
    with 2 show ?thesis unfolding e by (simp add: old_index_def)
  next
    case 3
    with k [of "j + 1"] j show ?thesis unfolding e by (simp add: old_index_def)
  qed
qed

lemma spans_known_merge_loop:
  "parts_inv c piece parts \<Longrightarrow> spans_known c piece parts \<Longrightarrow>
     spans_known c piece (merge_loop c piece parts)"
proof (induction c piece parts rule: merge_loop.induct)
  case (1 c piece parts)
  obtain r m where fm: "find_min parts = (r, m)" by (cases "find_min parts")
  show ?case
  proof (cases "length parts = 1 \<or> r = MaxUint")
    case True
    with fm have "merge_loop c piece parts = parts" by (simp add: merge_loop_stop)
    with "1.prems" show ?thesis by simp
  next
    case False
    with fm have e: "merge_loop c piece parts = merge_loop c piece (merge_at c piece parts m)"
      by (simp add: merge_loop_pass)
    from False fm "1.prems" have "parts_inv c piece (merge_at c piece parts m)"
      and "spans_known c piece (merge_at c piece parts m)"
      by (simp_all add: parts_inv_merge_at [of c piece parts r m]
                        spans_known_merge_at [of c piece parts r m])
    with "1.IH" [of r m] False fm e show ?thesis by simp
  qed
qed

lemma bpe_pieces_known:
  assumes "\<forall>b. map_of (vocabulary c) [b] \<noteq> None"
  shows "\<forall>p \<in> set (snd (bpe c piece)). map_of (vocabulary c) p \<noteq> None"
proof -
  have "spans_known c piece (merge_loop c piece (init_parts c piece))"
    by (intro spans_known_merge_loop parts_inv_init spans_known_init assms)
  then show ?thesis
    by (auto simp: bpe_def emit_def Let_def spans_known_def)
qed

text \<open>
  Under the coverage of the single bytes every piece that \<open>Encode\<close> returns is a piece
  of the vocabulary; the condition of the amended round trip then holds for every
  text.
\<close>

lemma Encode_pieces_known:
  assumes "\<forall>b. map_of (vocabulary c) [b] \<noteq> None" and "Encode c t = Inr (ids, tokens)"
  shows "\<forall>p \<in> set tokens. map_of (vocabulary c) p \<noteq> None"
proof -
  have "\<forall>p \<in> set (snd (encode_chunk c q)). map_of (vocabulary c) p \<noteq> None" for q
    using bpe_pieces_known [OF assms(1), of q]
    by (auto simp: encode_chunk_def split: option.splits)
  moreover from assms(2)
  have "tokens = concat (map (\<lambda>p. snd (encode_chunk c p)) (chunks (splitRegexp c t)))"
    by (auto simp: Encode_chunks split: option.splits)
  ultimately show ?thesis by auto
qed

end
